theory Spec2Isabelle
  imports Complex_Main
begin

section \<open>Data model\<close>

text \<open>
  The program decides whether a budget vector can be decomposed into equal per-citizen
  shares that are spent only on subjects the citizen endorses (\<^verbatim>\<open>src/solution.py\<close>).

  \<^item> Python floats are modelled as exact reals (\<open>real\<close>): rounding is not modelled.
  \<^item> A preference set is a Python \<^verbatim>\<open>Set[int]\<close>. It is modelled as the list of its
    elements in the order in which the set iterates, so membership is \<open>x \<in> set p\<close>,
    a \<^verbatim>\<open>for\<close> loop over the set runs over the list, and \<^verbatim>\<open>next(iter(s))\<close> is its
    first element. The elements are Python integers (\<open>int\<close>), so a negative element
    used as a list index counts from the end, and an element out of range raises.
  \<^item> A raised exception is a value \<open>Inl e\<close>; the 'no solution' sentinel \<^verbatim>\<open>None\<close>
    of \<^verbatim>\<open>find_decomposition\<close> is \<open>Inr None\<close>, a returned matrix \<open>Inr (Some d)\<close>.
  \<^item> The decomposition matrix is mutated in place by the source; the model passes it
    through and returns the updated matrix.
\<close>

datatype py_error = IndexError | StopIteration

type_synonym matrix = "real list list"

type_synonym preferences = "int list list"

text \<open>Python list indexing \<^verbatim>\<open>xs[i]\<close> on a list of length \<open>n\<close>: the position read or written.\<close>

definition py_index :: "nat \<Rightarrow> int \<Rightarrow> py_error + nat" where
  "py_index n i =
     (let j = (if i < 0 then int n + i else i)
      in if 0 \<le> j \<and> j < int n then Inr (nat j) else Inl IndexError)"

section \<open>The functions of the source\<close>

definition calculate_total_budget_and_share :: "real list \<Rightarrow> nat \<Rightarrow> real \<times> real" where
  "calculate_total_budget_and_share budget n =
     (let total_budget = sum_list budget;
          share_per_citizen = (if n \<noteq> 0 then total_budget / real n else 0)
      in (total_budget, share_per_citizen))"

text \<open>\<^verbatim>\<open>[i for i in range(n) if subject_index in preferences[i]]\<close>; reading
  \<^verbatim>\<open>preferences[i]\<close> raises once \<open>i\<close> reaches the length of the list.\<close>

definition find_interested_citizens :: "preferences \<Rightarrow> nat \<Rightarrow> nat \<Rightarrow> py_error + nat list" where
  "find_interested_citizens prefs subject_index n =
     (if length prefs < n then Inl IndexError
      else Inr (filter (\<lambda>i. int subject_index \<in> set (prefs ! i)) [0..<n]))"

text \<open>Line 33: the capacities left to the interested citizens, added up.\<close>

definition total_possible_share :: "real \<Rightarrow> matrix \<Rightarrow> nat list \<Rightarrow> py_error + real" where
  "total_possible_share share_per_citizen decomposition interested_citizens =
     (if list_all (\<lambda>i. i < length decomposition) interested_citizens
      then Inr (sum_list (map (\<lambda>i. share_per_citizen - sum_list (decomposition ! i))
                  interested_citizens))
      else Inl IndexError)"

text \<open>Lines 38 to 45: the loop over the interested citizens, with the budget of the
  subject that is still to be placed.\<close>

fun allocate_loop :: "real \<Rightarrow> nat \<Rightarrow> nat list \<Rightarrow> real \<Rightarrow> matrix \<Rightarrow> py_error + matrix" where
  "allocate_loop share_per_citizen subject_index [] subject_budget decomposition =
     Inr decomposition"
| "allocate_loop share_per_citizen subject_index (i # rest) subject_budget decomposition =
     (if subject_budget \<le> 0 then Inr decomposition
      else if length decomposition \<le> i then Inl IndexError
      else
        let max_possible_allocation = share_per_citizen - sum_list (decomposition ! i);
            possible_allocation = min max_possible_allocation subject_budget
        in if length (decomposition ! i) \<le> subject_index then Inl IndexError
           else allocate_loop share_per_citizen subject_index rest
                  (subject_budget - possible_allocation)
                  (decomposition[i := (decomposition ! i)
                     [subject_index := decomposition ! i ! subject_index + possible_allocation]]))"

text \<open>The result is the returned flag together with the matrix as the call leaves it.\<close>

definition allocate_budget_for_subject ::
  "real list \<Rightarrow> preferences \<Rightarrow> nat \<Rightarrow> real \<Rightarrow> matrix \<Rightarrow> py_error + (bool \<times> matrix)" where
  "allocate_budget_for_subject budget prefs subject_index share_per_citizen decomposition =
     (if length budget \<le> subject_index then Inl IndexError
      else
        let subject_budget = budget ! subject_index
        in case find_interested_citizens prefs subject_index (length prefs) of
             Inl e \<Rightarrow> Inl e
           | Inr interested_citizens \<Rightarrow>
               if interested_citizens = [] \<and> subject_budget > 0 then Inr (False, decomposition)
               else
                 (case total_possible_share share_per_citizen decomposition interested_citizens of
                    Inl e \<Rightarrow> Inl e
                  | Inr possible \<Rightarrow>
                      if possible < subject_budget then Inr (False, decomposition)
                      else
                        (case allocate_loop share_per_citizen subject_index interested_citizens
                                subject_budget decomposition of
                           Inl e \<Rightarrow> Inl e
                         | Inr d \<Rightarrow> Inr (True, d))))"

definition verify_allocation :: "matrix \<Rightarrow> real \<Rightarrow> bool" where
  "verify_allocation decomposition share_per_citizen =
     list_all (\<lambda>allocation. \<bar>sum_list allocation - share_per_citizen\<bar> < 1 / 10 ^ 9)
       decomposition"

text \<open>Lines 63 to 65: the inner loop over one citizen's preference set, and the outer
  loop over the citizens. \<^verbatim>\<open>subjects_interested_count[preferred_subject] += 1\<close>
  indexes a list with an element of the set.\<close>

fun count_citizen :: "int list \<Rightarrow> nat list \<Rightarrow> py_error + nat list" where
  "count_citizen [] counts = Inr counts"
| "count_citizen (preferred_subject # rest) counts =
     (case py_index (length counts) preferred_subject of
        Inl e \<Rightarrow> Inl e
      | Inr k \<Rightarrow> count_citizen rest (counts[k := counts ! k + 1]))"

fun count_interest :: "preferences \<Rightarrow> nat list \<Rightarrow> py_error + nat list" where
  "count_interest [] counts = Inr counts"
| "count_interest (citizen_preferences # rest) counts =
     (case count_citizen citizen_preferences counts of
        Inl e \<Rightarrow> Inl e
      | Inr counts' \<Rightarrow> count_interest rest counts')"

definition is_basic_case_func :: "real list \<Rightarrow> preferences \<Rightarrow> py_error + bool" where
  "is_basic_case_func budget prefs =
     (let num_subjects = length budget
      in case count_interest prefs (replicate num_subjects 0) of
           Inl e \<Rightarrow> Inl e
         | Inr subjects_interested_count \<Rightarrow>
             let has_unique_preferences = list_all (\<lambda>c. c = 1) subjects_interested_count;
                 has_sufficient_budget = (sum_list budget \<ge> real (length prefs))
             in Inr (has_unique_preferences \<and> has_sufficient_budget))"

text \<open>Lines 78 to 80: the loop over \<^verbatim>\<open>enumerate(preferences)\<close>. In
  \<^verbatim>\<open>decomposition[citizen_index][preferred_subject] = budget[preferred_subject]\<close> the
  right-hand side is read first.\<close>

fun basic_loop :: "real list \<Rightarrow> (nat \<times> int list) list \<Rightarrow> matrix \<Rightarrow> py_error + matrix" where
  "basic_loop budget [] decomposition = Inr decomposition"
| "basic_loop budget ((citizen_index, citizen_preferences) # rest) decomposition =
     (case citizen_preferences of
        [] \<Rightarrow> Inl StopIteration
      | preferred_subject # _ \<Rightarrow>
          (case py_index (length budget) preferred_subject of
             Inl e \<Rightarrow> Inl e
           | Inr b \<Rightarrow>
               if length decomposition \<le> citizen_index then Inl IndexError
               else
                 (case py_index (length (decomposition ! citizen_index)) preferred_subject of
                    Inl e \<Rightarrow> Inl e
                  | Inr k \<Rightarrow>
                      basic_loop budget rest
                        (decomposition[citizen_index :=
                           (decomposition ! citizen_index)[k := budget ! b]]))))"

definition calc_decomposition_for_basic_case :: "real list \<Rightarrow> preferences \<Rightarrow> py_error + matrix" where
  "calc_decomposition_for_basic_case budget prefs =
     (let num_citizens = length prefs;
          decomposition = replicate num_citizens (replicate (length budget) 0)
      in basic_loop budget (zip [0..<length prefs] prefs) decomposition)"

definition check_if_no_pref_then_return_None :: "preferences \<Rightarrow> bool" where
  "check_if_no_pref_then_return_None prefs = list_ex (\<lambda>pref. length pref = 0) prefs"

text \<open>Lines 110 to 112: the loop over the subjects; \<open>Inr None\<close> is the early
  \<^verbatim>\<open>return None\<close>.\<close>

fun allocate_subjects ::
  "real list \<Rightarrow> preferences \<Rightarrow> real \<Rightarrow> nat list \<Rightarrow> matrix \<Rightarrow> py_error + matrix option" where
  "allocate_subjects budget prefs share_per_citizen [] decomposition = Inr (Some decomposition)"
| "allocate_subjects budget prefs share_per_citizen (j # rest) decomposition =
     (case allocate_budget_for_subject budget prefs j share_per_citizen decomposition of
        Inl e \<Rightarrow> Inl e
      | Inr (ok, d) \<Rightarrow>
          if \<not> ok then Inr None
          else allocate_subjects budget prefs share_per_citizen rest d)"

definition find_decomposition :: "real list \<Rightarrow> preferences \<Rightarrow> py_error + matrix option" where
  "find_decomposition budget prefs =
     (if check_if_no_pref_then_return_None prefs then Inr None
      else
        (case is_basic_case_func budget prefs of
           Inl e \<Rightarrow> Inl e
         | Inr basic_case \<Rightarrow>
             if basic_case then
               (case calc_decomposition_for_basic_case budget prefs of
                  Inl e \<Rightarrow> Inl e
                | Inr d \<Rightarrow> Inr (Some d))
             else
               let n = length prefs;
                   (total_budget, share_per_citizen) = calculate_total_budget_and_share budget n;
                   decomposition = replicate n (replicate (length budget) 0)
               in (case allocate_subjects budget prefs share_per_citizen [0..<length budget]
                          decomposition of
                     Inl e \<Rightarrow> Inl e
                   | Inr None \<Rightarrow> Inr None
                   | Inr (Some d) \<Rightarrow>
                       if \<not> verify_allocation d share_per_citizen then Inr None
                       else Inr (Some d))))"


section \<open>Notions used to state the properties\<close>

text \<open>A matrix of \<open>n\<close> rows that all have \<open>s\<close> entries.\<close>

definition shape :: "nat \<Rightarrow> nat \<Rightarrow> matrix \<Rightarrow> bool" where
  "shape n s d = (length d = n \<and> list_all (\<lambda>r. length r = s) d)"

text \<open>The sum of column \<open>j\<close> over all citizens.\<close>

definition col_sum :: "matrix \<Rightarrow> nat \<Rightarrow> real" where
  "col_sum d j = sum_list (map (\<lambda>r. r ! j) d)"

text \<open>No row adds up to more than the share.\<close>

definition rows_capped :: "real \<Rightarrow> matrix \<Rightarrow> bool" where
  "rows_capped share d = list_all (\<lambda>r. sum_list r \<le> share) d"

definition entries_nonneg :: "matrix \<Rightarrow> bool" where
  "entries_nonneg d = list_all (list_all (\<lambda>x. 0 \<le> x)) d"

text \<open>The list that \<open>find_interested_citizens\<close> returns when it is called with the
  number of citizens, as \<open>allocate_budget_for_subject\<close> does.\<close>

definition interested :: "preferences \<Rightarrow> nat \<Rightarrow> nat list" where
  "interested prefs j = filter (\<lambda>i. int j \<in> set (prefs ! i)) [0..<length prefs]"

text \<open>The precondition of the interface: every element of every preference set is a
  subject index in range.\<close>

definition valid_preferences :: "real list \<Rightarrow> preferences \<Rightarrow> bool" where
  "valid_preferences budget prefs =
     list_all (list_all (\<lambda>p. 0 \<le> p \<and> p < int (length budget))) prefs"

subsection \<open>The general path as the specification words it\<close>

text \<open>
  The interested citizens of a subject in ascending order of citizen index; a citizen's
  remaining capacity (share minus current row sum); the greedy filling of one subject,
  which stops once the remaining budget of the subject reaches zero; one subject, which
  fails when the capacities of the interested citizens add up to strictly less than the
  budget of the subject; and the run over the subjects in the order given.
  These follow the words of the specification, not the code.
\<close>

definition spec_interested :: "preferences \<Rightarrow> nat \<Rightarrow> nat list" where
  "spec_interested prefs j =
     sorted_list_of_set {i \<in> {0..<length prefs}. int j \<in> set (prefs ! i)}"

definition spec_capacity :: "real \<Rightarrow> matrix \<Rightarrow> nat \<Rightarrow> real" where
  "spec_capacity share d i = share - sum_list (d ! i)"

fun spec_fill :: "real \<Rightarrow> nat \<Rightarrow> nat list \<Rightarrow> real \<Rightarrow> matrix \<Rightarrow> matrix" where
  "spec_fill share j [] remaining d = d"
| "spec_fill share j (i # rest) remaining d =
     (if remaining = 0 then d
      else
        let amount = min (spec_capacity share d i) remaining
        in spec_fill share j rest (remaining - amount)
             (d[i := (d ! i)[j := d ! i ! j + amount]]))"

definition spec_subject ::
  "real list \<Rightarrow> preferences \<Rightarrow> real \<Rightarrow> nat \<Rightarrow> matrix \<Rightarrow> matrix option" where
  "spec_subject budget prefs share j d =
     (if sum_list (map (spec_capacity share d) (spec_interested prefs j)) < budget ! j
      then None
      else Some (spec_fill share j (spec_interested prefs j) (budget ! j) d))"

fun spec_run ::
  "real list \<Rightarrow> preferences \<Rightarrow> real \<Rightarrow> nat list \<Rightarrow> matrix \<Rightarrow> matrix option" where
  "spec_run budget prefs share [] d = Some d"
| "spec_run budget prefs share (j # js) d =
     (case spec_subject budget prefs share j d of
        None \<Rightarrow> None
      | Some d' \<Rightarrow> spec_run budget prefs share js d')"

section \<open>Auxiliary facts\<close>

subsection \<open>Matrices and the update of one cell\<close>

lemma shape_nth: "shape n s d \<Longrightarrow> i < n \<Longrightarrow> length (d ! i) = s"
  by (auto simp: shape_def list_all_length)

lemma shape_length: "shape n s d \<Longrightarrow> length d = n"
  by (simp add: shape_def)

lemma shape_update: "shape n s d \<Longrightarrow> length r = s \<Longrightarrow> shape n s (d[i := r])"
  by (cases "i < length d") (auto simp: shape_def list_all_length nth_list_update)

lemma shape_zeros: "shape n s (replicate n (replicate s 0))"
  by (simp add: shape_def list_all_length)

lemma sum_list_bump: "j < length xs \<Longrightarrow> sum_list (xs[j := xs ! j + a]) = sum_list xs + (a::real)"
proof (induction xs arbitrary: j)
  case Nil
  then show ?case by simp
next
  case (Cons x xs)
  then show ?case by (cases j) simp_all
qed

lemma col_sum_update:
  "i < length d \<Longrightarrow> col_sum (d[i := r]) k = col_sum d k - d ! i ! k + r ! k"
proof (induction d arbitrary: i)
  case Nil
  then show ?case by simp
next
  case (Cons x d)
  then show ?case by (cases i) (simp_all add: col_sum_def)
qed

lemma col_sum_bump:
  "i < length d \<Longrightarrow> j < length (d ! i) \<Longrightarrow>
   col_sum (d[i := (d ! i)[j := d ! i ! j + a]]) k = col_sum d k + (if k = j then a else 0)"
  by (simp add: col_sum_update)

subsection \<open>The loop over the interested citizens\<close>

text \<open>On a matrix of the right shape the loop raises nothing; it changes only the cells
  of the subject's column in the rows of the citizens it visits.\<close>

lemma allocate_loop_shape:
  "shape n s d \<Longrightarrow> j < s \<Longrightarrow> \<forall>i\<in>set cs. i < n \<Longrightarrow>
   \<exists>d'. allocate_loop share j cs sb d = Inr d' \<and> shape n s d'"
proof (induction cs arbitrary: sb d)
  case Nil
  then show ?case by simp
next
  case (Cons i cs)
  let ?a = "min (share - sum_list (d ! i)) sb"
  let ?d = "d[i := (d ! i)[j := d ! i ! j + ?a]]"
  have i: "i < length d" "j < length (d ! i)"
    using Cons.prems by (simp_all add: shape_length shape_nth)
  have "shape n s ?d"
    using Cons.prems by (intro shape_update) (simp_all add: shape_nth)
  then have "\<exists>d'. allocate_loop share j cs (sb - ?a) ?d = Inr d' \<and> shape n s d'"
    using Cons.IH Cons.prems by simp
  then show ?case
    using i Cons.prems(1) by (simp add: Let_def)
qed

lemma allocate_loop_other_rows:
  "allocate_loop share j cs sb d = Inr d' \<Longrightarrow> i \<notin> set cs \<Longrightarrow> d' ! i = d ! i"
proof (induction cs arbitrary: sb d)
  case Nil
  then show ?case by simp
next
  case (Cons c cs)
  then show ?case
    by (auto simp: Let_def split: if_splits)
qed

lemma allocate_loop_other_columns:
  "allocate_loop share j cs sb d = Inr d' \<Longrightarrow> k \<noteq> j \<Longrightarrow> d' ! i ! k = d ! i ! k"
proof (induction cs arbitrary: sb d)
  case Nil
  then show ?case by simp
next
  case (Cons c cs)
  show ?case
  proof (cases "sb \<le> 0")
    case True
    with Cons.prems show ?thesis by simp
  next
    case False
    let ?a = "min (share - sum_list (d ! c)) sb"
    let ?d = "d[c := (d ! c)[j := d ! c ! j + ?a]]"
    from False Cons.prems have c: "c < length d" and run: "allocate_loop share j cs (sb - ?a) ?d = Inr d'"
      by (auto simp: Let_def split: if_splits)
    have "d' ! i ! k = ?d ! i ! k"
      using Cons.IH [OF run \<open>k \<noteq> j\<close>] .
    also have "\<dots> = d ! i ! k"
      using c \<open>k \<noteq> j\<close> by (cases "i = c") simp_all
    finally show ?thesis .
  qed
qed

text \<open>The loop never lifts a row above the share, so it adds only non-negative amounts,
  and it places the whole budget of the subject when the capacities suffice.\<close>

lemma rows_capped_nth: "rows_capped share d \<Longrightarrow> i < length d \<Longrightarrow> sum_list (d ! i) \<le> share"
  by (simp add: rows_capped_def list_all_length)

lemma rows_capped_bump:
  assumes "rows_capped share d" "c < length d" "j < length (d ! c)"
    and "a \<le> share - sum_list (d ! c)"
  shows "rows_capped share (d[c := (d ! c)[j := d ! c ! j + a]])"
  using assms by (auto simp: rows_capped_def list_all_length nth_list_update sum_list_bump)

lemma entries_nonneg_bump:
  assumes "entries_nonneg d" "c < length d" "j < length (d ! c)" "0 \<le> a"
  shows "entries_nonneg (d[c := (d ! c)[j := d ! c ! j + a]])"
  using assms by (auto simp: entries_nonneg_def list_all_length nth_list_update)

lemma allocate_loop_step:
  assumes "allocate_loop share j (c # cs) sb d = Inr d'" "\<not> sb \<le> 0"
  shows "c < length d" "j < length (d ! c)"
    "allocate_loop share j cs (sb - min (share - sum_list (d ! c)) sb)
       (d[c := (d ! c)[j := d ! c ! j + min (share - sum_list (d ! c)) sb]]) = Inr d'"
  using assms by (auto simp: Let_def split: if_splits)

lemma allocate_loop_capped:
  "allocate_loop share j cs sb d = Inr d' \<Longrightarrow> rows_capped share d \<Longrightarrow> rows_capped share d'"
proof (induction cs arbitrary: sb d)
  case Nil
  then show ?case by simp
next
  case (Cons c cs)
  show ?case
  proof (cases "sb \<le> 0")
    case True
    with Cons.prems show ?thesis by simp
  next
    case False
    note step = allocate_loop_step [OF Cons.prems(1) False]
    show ?thesis
      by (rule Cons.IH [OF step(3)]) (simp add: rows_capped_bump step Cons.prems(2))
  qed
qed

lemma allocate_loop_nonneg:
  "allocate_loop share j cs sb d = Inr d' \<Longrightarrow> rows_capped share d \<Longrightarrow> entries_nonneg d \<Longrightarrow>
   entries_nonneg d'"
proof (induction cs arbitrary: sb d)
  case Nil
  then show ?case by simp
next
  case (Cons c cs)
  show ?case
  proof (cases "sb \<le> 0")
    case True
    with Cons.prems show ?thesis by simp
  next
    case False
    note step = allocate_loop_step [OF Cons.prems(1) False]
    have "0 \<le> share - sum_list (d ! c)"
      using rows_capped_nth [OF Cons.prems(2) step(1)] by simp
    with False have a: "0 \<le> min (share - sum_list (d ! c)) sb" by simp
    have capped: "rows_capped share
        (d[c := (d ! c)[j := d ! c ! j + min (share - sum_list (d ! c)) sb]])"
      by (rule rows_capped_bump [OF Cons.prems(2) step(1,2)]) simp
    have nonneg: "entries_nonneg
        (d[c := (d ! c)[j := d ! c ! j + min (share - sum_list (d ! c)) sb]])"
      by (rule entries_nonneg_bump [OF Cons.prems(3) step(1,2) a])
    show ?thesis
      by (rule Cons.IH [OF step(3) capped nonneg])
  qed
qed

lemma allocate_loop_col_sum_other:
  "allocate_loop share j cs sb d = Inr d' \<Longrightarrow> k \<noteq> j \<Longrightarrow> col_sum d' k = col_sum d k"
proof (induction cs arbitrary: sb d)
  case Nil
  then show ?case by simp
next
  case (Cons c cs)
  show ?case
  proof (cases "sb \<le> 0")
    case True
    with Cons.prems show ?thesis by simp
  next
    case False
    note step = allocate_loop_step [OF Cons.prems(1) False]
    show ?thesis
      using Cons.IH [OF step(3) Cons.prems(2)] Cons.prems(2)
      by (simp add: col_sum_bump step)
  qed
qed

lemma allocate_loop_col_sum:
  "allocate_loop share j cs sb d = Inr d' \<Longrightarrow> distinct cs \<Longrightarrow> \<forall>i\<in>set cs. i < length d \<Longrightarrow>
   rows_capped share d \<Longrightarrow> 0 \<le> sb \<Longrightarrow>
   sb \<le> sum_list (map (\<lambda>i. share - sum_list (d ! i)) cs) \<Longrightarrow>
   col_sum d' j = col_sum d j + sb"
proof (induction cs arbitrary: sb d)
  case Nil
  then show ?case by simp
next
  case (Cons c cs)
  show ?case
  proof (cases "sb \<le> 0")
    case True
    with Cons.prems show ?thesis by simp
  next
    case False
    let ?a = "min (share - sum_list (d ! c)) sb"
    let ?d = "d[c := (d ! c)[j := d ! c ! j + ?a]]"
    note step = allocate_loop_step [OF Cons.prems(1) False]
    have same: "map (\<lambda>i. share - sum_list (?d ! i)) cs = map (\<lambda>i. share - sum_list (d ! i)) cs"
    proof (rule map_cong [OF refl])
      fix i
      assume "i \<in> set cs"
      with Cons.prems(2) have "i \<noteq> c" by auto
      then show "share - sum_list (?d ! i) = share - sum_list (d ! i)" by simp
    qed
    have caps: "0 \<le> sum_list (map (\<lambda>i. share - sum_list (d ! i)) cs)"
      using Cons.prems(3,4) by (intro sum_list_nonneg) (auto dest: rows_capped_nth)
    have rest: "sb - ?a \<le> sum_list (map (\<lambda>i. share - sum_list (?d ! i)) cs)"
      unfolding same using Cons.prems(6) caps by (simp add: min_def)
    have "col_sum d' j = col_sum ?d j + (sb - ?a)"
      using Cons.prems(2,3,5) False
      by (intro Cons.IH [OF step(3)] rest)
         (simp_all add: rows_capped_bump step Cons.prems(4))
    then show ?thesis by (simp add: col_sum_bump step)
  qed
qed

subsection \<open>One subject, and the run over the subjects\<close>

lemma find_interested_citizens_all:
  "find_interested_citizens prefs j (length prefs) = Inr (interested prefs j)"
  by (simp add: find_interested_citizens_def interested_def)

lemma interested_facts:
  "distinct (interested prefs j)"
  "i \<in> set (interested prefs j) \<longleftrightarrow> i < length prefs \<and> int j \<in> set (prefs ! i)"
  by (auto simp: interested_def)

lemma allocate_budget_for_subject_True:
  assumes "allocate_budget_for_subject budget prefs j share d = Inr (True, d')"
  shows "allocate_loop share j (interested prefs j) (budget ! j) d = Inr d'"
    and "budget ! j \<le> sum_list (map (\<lambda>i. share - sum_list (d ! i)) (interested prefs j))"
    and "j < length budget"
    and "\<forall>i\<in>set (interested prefs j). i < length d"
  using assms
  by (auto simp: allocate_budget_for_subject_def find_interested_citizens_all
      total_possible_share_def Let_def list_all_iff split: if_splits sum.splits)

lemma allocate_budget_for_subject_False:
  assumes "allocate_budget_for_subject budget prefs j share d = Inr (False, d')"
  shows "d' = d"
  using assms
  by (auto simp: allocate_budget_for_subject_def find_interested_citizens_all
      total_possible_share_def Let_def split: if_splits sum.splits)

lemma allocate_budget_for_subject_shape:
  assumes "shape (length prefs) (length budget) d" "j < length budget"
  shows "\<exists>ok d'. allocate_budget_for_subject budget prefs j share d = Inr (ok, d') \<and>
     shape (length prefs) (length budget) d'"
proof -
  have cs: "\<forall>i\<in>set (interested prefs j). i < length prefs"
    by (simp add: interested_facts)
  then have total: "total_possible_share share d (interested prefs j) =
      Inr (sum_list (map (\<lambda>i. share - sum_list (d ! i)) (interested prefs j)))"
    using assms(1) by (simp add: total_possible_share_def list_all_iff shape_length)
  obtain d' where "allocate_loop share j (interested prefs j) (budget ! j) d = Inr d'"
    "shape (length prefs) (length budget) d'"
    using allocate_loop_shape [OF assms cs] by blast
  then show ?thesis
    using assms
    by (auto simp: allocate_budget_for_subject_def find_interested_citizens_all total Let_def)
qed

lemma allocate_subjects_shape:
  assumes "shape (length prefs) (length budget) d" "\<forall>j\<in>set js. j < length budget"
  shows "\<exists>r. allocate_subjects budget prefs share js d = Inr r \<and>
     (\<forall>d'. r = Some d' \<longrightarrow> shape (length prefs) (length budget) d')"
  using assms
proof (induction js arbitrary: d)
  case Nil
  then show ?case by simp
next
  case (Cons j js)
  then obtain ok d1 where
    d1: "allocate_budget_for_subject budget prefs j share d = Inr (ok, d1)"
      "shape (length prefs) (length budget) d1"
    using allocate_budget_for_subject_shape [of prefs budget d j share] by auto
  show ?case
  proof (cases ok)
    case True
    then show ?thesis
      using Cons.IH [OF d1(2)] Cons.prems d1 by simp
  next
    case False
    then show ?thesis using d1 by simp
  qed
qed

lemma allocate_subjects_Cons:
  assumes "allocate_subjects budget prefs share (j # js) d = Inr (Some d')"
  obtains d1 where "allocate_budget_for_subject budget prefs j share d = Inr (True, d1)"
    and "allocate_subjects budget prefs share js d1 = Inr (Some d')"
  using assms by (auto split: sum.splits if_splits)

lemma allocate_subjects_invariant:
  assumes "allocate_subjects budget prefs share js d = Inr (Some d')"
    and "rows_capped share d" "entries_nonneg d"
  shows "rows_capped share d' \<and> entries_nonneg d'"
  using assms
proof (induction js arbitrary: d)
  case Nil
  then show ?case by simp
next
  case (Cons j js)
  from Cons.prems(1) obtain d1 where
    d1: "allocate_budget_for_subject budget prefs j share d = Inr (True, d1)"
    and run: "allocate_subjects budget prefs share js d1 = Inr (Some d')"
    by (rule allocate_subjects_Cons)
  note loop = allocate_budget_for_subject_True(1) [OF d1]
  show ?case
    using Cons.IH [OF run allocate_loop_capped [OF loop Cons.prems(2)]
        allocate_loop_nonneg [OF loop Cons.prems(2,3)]] .
qed

lemma allocate_subjects_col_sum:
  assumes "allocate_subjects budget prefs share js d = Inr (Some d')"
    and "rows_capped share d" "distinct js" "\<forall>j\<in>set js. 0 \<le> budget ! j"
  shows "col_sum d' k = col_sum d k + (if k \<in> set js then budget ! k else 0)"
  using assms
proof (induction js arbitrary: d)
  case Nil
  then show ?case by simp
next
  case (Cons j js)
  from Cons.prems(1) obtain d1 where
    d1: "allocate_budget_for_subject budget prefs j share d = Inr (True, d1)"
    and run: "allocate_subjects budget prefs share js d1 = Inr (Some d')"
    by (rule allocate_subjects_Cons)
  note sub = allocate_budget_for_subject_True [OF d1]
  have step: "col_sum d1 k = col_sum d k + (if k = j then budget ! j else 0)"
  proof (cases "k = j")
    case True
    then show ?thesis
      using allocate_loop_col_sum [OF sub(1) interested_facts(1) sub(4) Cons.prems(2) _ sub(2)]
        Cons.prems(4) by simp
  next
    case False
    then show ?thesis
      using allocate_loop_col_sum_other [OF sub(1)] by simp
  qed
  have "col_sum d' k = col_sum d1 k + (if k \<in> set js then budget ! k else 0)"
    using Cons.prems(3,4)
    by (intro Cons.IH [OF run allocate_loop_capped [OF sub(1) Cons.prems(2)]]) simp_all
  with step Cons.prems(3) show ?case by auto
qed

lemma allocate_subjects_support:
  assumes "allocate_subjects budget prefs share js d = Inr (Some d')"
    and "int k \<notin> set (prefs ! i)" "d ! i ! k = 0"
  shows "d' ! i ! k = 0"
  using assms
proof (induction js arbitrary: d)
  case Nil
  then show ?case by simp
next
  case (Cons j js)
  from Cons.prems(1) obtain d1 where
    d1: "allocate_budget_for_subject budget prefs j share d = Inr (True, d1)"
    and run: "allocate_subjects budget prefs share js d1 = Inr (Some d')"
    by (rule allocate_subjects_Cons)
  note sub = allocate_budget_for_subject_True [OF d1]
  have "d1 ! i ! k = d ! i ! k"
  proof (cases "k = j")
    case True
    with Cons.prems(2) have "i \<notin> set (interested prefs j)"
      by (simp add: interested_facts)
    then show ?thesis
      using allocate_loop_other_rows [OF sub(1)] by simp
  next
    case False
    then show ?thesis
      using allocate_loop_other_columns [OF sub(1)] by simp
  qed
  with Cons.prems(3) show ?case
    using Cons.IH [OF run Cons.prems(2)] by simp
qed

subsection \<open>Rows and columns of the result of the general path\<close>

lemma col_sum_Cons: "col_sum (r # d) k = r ! k + col_sum d k"
  by (simp add: col_sum_def)

lemma matrix_total:
  "shape n s d \<Longrightarrow> sum_list (map sum_list d) = sum_list (map (col_sum d) [0..<s])"
proof (induction d arbitrary: n)
  case Nil
  then show ?case by (simp add: col_sum_def)
next
  case (Cons r d)
  then have r: "length r = s" and d: "shape (length d) s d"
    by (simp_all add: shape_def)
  have "map (col_sum (r # d)) [0..<s] = map (\<lambda>k. r ! k + col_sum d k) [0..<s]"
    by (simp add: col_sum_Cons)
  then have "sum_list (map (col_sum (r # d)) [0..<s]) =
      sum_list (map ((!) r) [0..<s]) + sum_list (map (col_sum d) [0..<s])"
    by (simp only: sum_list_addf)
  also have "map ((!) r) [0..<s] = r"
    using r map_nth [of r] by simp
  finally show ?case
    using Cons.IH [OF d] by simp
qed

lemma sum_list_le_length_times:
  "\<forall>x\<in>set xs. x \<le> (c::real) \<Longrightarrow> sum_list xs \<le> real (length xs) * c"
  by (induction xs) (auto simp: algebra_simps)

lemma all_rows_full:
  "\<forall>x\<in>set xs. x \<le> (c::real) \<Longrightarrow> sum_list xs = real (length xs) * c \<Longrightarrow> \<forall>x\<in>set xs. x = c"
proof (induction xs)
  case Nil
  then show ?case by simp
next
  case (Cons x xs)
  have le: "sum_list xs \<le> real (length xs) * c"
    using Cons.prems(1) by (intro sum_list_le_length_times) simp
  have x: "x \<le> c" using Cons.prems(1) by simp
  have "x + sum_list xs = c + real (length xs) * c"
    using Cons.prems(2) by (simp add: algebra_simps)
  with le x have "x = c" "sum_list xs = real (length xs) * c"
    by linarith+
  then show ?case using Cons.IH Cons.prems(1) by simp
qed

lemma zeros_facts:
  "shape n s (replicate n (replicate s 0))"
  "0 \<le> share \<Longrightarrow> rows_capped share (replicate n (replicate s 0))"
  "entries_nonneg (replicate n (replicate s 0))"
  "k < s \<Longrightarrow> col_sum (replicate n (replicate s 0)) k = 0"
  "i < n \<Longrightarrow> k < s \<Longrightarrow> replicate n (replicate s (0::real)) ! i ! k = 0"
  by (simp_all add: shape_def rows_capped_def entries_nonneg_def col_sum_def list_all_length
      sum_list_replicate)

lemma share_nonneg:
  "\<forall>b\<in>set budget. 0 \<le> b \<Longrightarrow> 0 \<le> snd (calculate_total_budget_and_share budget n)"
  by (simp add: calculate_total_budget_and_share_def Let_def sum_list_nonneg)

lemma general_path_columns:
  assumes "\<forall>b\<in>set budget. 0 \<le> b"
    and "allocate_subjects budget prefs (snd (calculate_total_budget_and_share budget (length prefs)))
           [0..<length budget] (replicate (length prefs) (replicate (length budget) 0)) = Inr (Some d)"
    and "k < length budget"
  shows "col_sum d k = budget ! k"
  using allocate_subjects_col_sum [OF assms(2) zeros_facts(2) [OF share_nonneg [OF assms(1)]],
      where k = k] assms(1,3)
  by (simp add: zeros_facts)

lemma general_path_rows:
  assumes "\<forall>b\<in>set budget. 0 \<le> b"
    and "allocate_subjects budget prefs (snd (calculate_total_budget_and_share budget (length prefs)))
           [0..<length budget] (replicate (length prefs) (replicate (length budget) 0)) = Inr (Some d)"
  shows "\<forall>row\<in>set d. sum_list row = snd (calculate_total_budget_and_share budget (length prefs))"
proof -
  let ?share = "snd (calculate_total_budget_and_share budget (length prefs))"
  have sh: "shape (length prefs) (length budget) d"
    using allocate_subjects_shape [OF zeros_facts(1), where js = "[0..<length budget]"
        and budget = budget and prefs = prefs and share = ?share] assms(2) by simp
  have capped: "rows_capped ?share d"
    using allocate_subjects_invariant [OF assms(2) zeros_facts(2) [OF share_nonneg [OF assms(1)]]
        zeros_facts(3)] by simp
  have "sum_list (map sum_list d) = sum_list (map (col_sum d) [0..<length budget])"
    by (rule matrix_total [OF sh])
  also have "map (col_sum d) [0..<length budget] = map ((!) budget) [0..<length budget]"
    using general_path_columns [OF assms] by simp
  also have "\<dots> = budget" by (rule map_nth)
  finally have total: "sum_list (map sum_list d) = sum_list budget" .
  show ?thesis
  proof (cases "length prefs = 0")
    case True
    with sh show ?thesis by (simp add: shape_def)
  next
    case False
    then have "sum_list budget = real (length prefs) * ?share"
      by (simp add: calculate_total_budget_and_share_def Let_def)
    with total sh have "sum_list (map sum_list d) = real (length (map sum_list d)) * ?share"
      by (simp add: shape_def)
    moreover have "\<forall>x\<in>set (map sum_list d). x \<le> ?share"
      using capped by (simp add: rows_capped_def list_all_iff)
    ultimately have "\<forall>x\<in>set (map sum_list d). x = ?share"
      by (rule all_rows_full [rotated])
    then show ?thesis by simp
  qed
qed

subsection \<open>No citizens\<close>

lemma allocate_subjects_no_citizens:
  "\<forall>j\<in>set js. j < length budget \<Longrightarrow>
   allocate_subjects budget [] share js [] =
     (if list_ex (\<lambda>j. 0 < budget ! j) js then Inr None else Inr (Some []))"
  by (induction js)
     (auto simp: allocate_budget_for_subject_def find_interested_citizens_def
        total_possible_share_def Let_def)

lemma find_decomposition_no_citizens:
  "find_decomposition budget [] =
     (if list_ex (\<lambda>b. 0 < b) budget then Inr None else Inr (Some []))"
proof -
  have share: "calculate_total_budget_and_share budget 0 = (sum_list budget, 0)"
    by (simp add: calculate_total_budget_and_share_def)
  have run: "allocate_subjects budget [] 0 [0..<length budget] [] =
     (if list_ex (\<lambda>b. 0 < b) budget then Inr None else Inr (Some []))"
  proof -
    have "list_ex (\<lambda>j. 0 < budget ! j) [0..<length budget] = list_ex (\<lambda>b. 0 < b) budget"
      by (force simp: list_ex_iff in_set_conv_nth)
    then show ?thesis
      using allocate_subjects_no_citizens [of "[0..<length budget]" budget 0] by simp
  qed
  show ?thesis
  proof (cases "budget = []")
    case True
    then show ?thesis
      by (simp add: find_decomposition_def check_if_no_pref_then_return_None_def
          is_basic_case_func_def calc_decomposition_for_basic_case_def)
  next
    case False
    then have "is_basic_case_func budget [] = Inr False"
      by (cases budget) (simp_all add: is_basic_case_func_def)
    then show ?thesis
      by (simp add: find_decomposition_def check_if_no_pref_then_return_None_def share run
          verify_allocation_def)
  qed
qed

subsection \<open>The detector and the constructor of the basic path\<close>

lemma py_index_Inr:
  assumes "py_index n p = Inr k"
  shows "k < n" and "0 \<le> p \<Longrightarrow> int k = p"
  using assms by (auto simp: py_index_def Let_def split: if_splits)

lemma py_index_valid: "0 \<le> p \<Longrightarrow> p < int n \<Longrightarrow> py_index n p = Inr (nat p)"
  by (simp add: py_index_def)

lemma count_citizen_valid:
  assumes "list_all (\<lambda>p. 0 \<le> p \<and> p < int (length c)) cp"
  shows "\<exists>c'. count_citizen cp c = Inr c' \<and> length c' = length c \<and>
     (int j \<notin> set cp \<longrightarrow> c' ! j = c ! j)"
  using assms
proof (induction cp arbitrary: c)
  case Nil
  then show ?case by simp
next
  case (Cons p cp)
  let ?c = "c[nat p := c ! nat p + 1]"
  from Cons.prems have p: "0 \<le> p" "p < int (length c)"
    and rest: "list_all (\<lambda>p. 0 \<le> p \<and> p < int (length ?c)) cp"
    by simp_all
  from Cons.IH [OF rest] obtain c' where
    c': "count_citizen cp ?c = Inr c'" "length c' = length c"
      "int j \<notin> set cp \<longrightarrow> c' ! j = ?c ! j"
    by auto
  have "int j \<noteq> p \<Longrightarrow> ?c ! j = c ! j"
    using p by (intro nth_list_update_neq) auto
  with c' p show ?case
    by (auto simp: py_index_valid)
qed

lemma count_interest_valid:
  assumes "list_all (list_all (\<lambda>p. 0 \<le> p \<and> p < int (length c))) prefs"
  shows "\<exists>c'. count_interest prefs c = Inr c' \<and> length c' = length c \<and>
     (list_all (\<lambda>cp. int j \<notin> set cp) prefs \<longrightarrow> c' ! j = c ! j)"
  using assms
proof (induction prefs arbitrary: c)
  case Nil
  then show ?case by simp
next
  case (Cons cp prefs)
  from Cons.prems have cp: "list_all (\<lambda>p. 0 \<le> p \<and> p < int (length c)) cp" by simp
  from count_citizen_valid [OF cp, of j] obtain c1 where
    c1: "count_citizen cp c = Inr c1" "length c1 = length c"
      "int j \<notin> set cp \<longrightarrow> c1 ! j = c ! j"
    by auto
  from Cons.prems c1(2) have
    "list_all (list_all (\<lambda>p. 0 \<le> p \<and> p < int (length c1))) prefs" by simp
  from Cons.IH [OF this] obtain c' where
    "count_interest prefs c1 = Inr c'" "length c' = length c1"
    "list_all (\<lambda>cp. int j \<notin> set cp) prefs \<longrightarrow> c' ! j = c1 ! j"
    by auto
  with c1 show ?case by auto
qed

lemma is_basic_case_func_unendorsed:
  assumes "valid_preferences budget prefs" "j < length budget"
    and "list_all (\<lambda>cp. int j \<notin> set cp) prefs"
  shows "is_basic_case_func budget prefs = Inr False"
proof -
  have "list_all (list_all (\<lambda>p. 0 \<le> p \<and> p < int (length (replicate (length budget) (0::nat)))))
      prefs"
    using assms(1) by (simp add: valid_preferences_def)
  from count_interest_valid [OF this, of j] assms(2,3) obtain c' where
    c': "count_interest prefs (replicate (length budget) 0) = Inr c'"
      "length c' = length budget" "c' ! j = 0"
    by auto
  then have "\<not> list_all (\<lambda>c. c = 1) c'"
    using assms(2) by (auto simp: list_all_length)
  with c'(1) show ?thesis
    by (simp add: is_basic_case_func_def)
qed

lemma basic_loop_step:
  assumes "basic_loop budget ((ci, cp) # rest) d = Inr d'"
  obtains p ps b k where "cp = p # ps" "py_index (length budget) p = Inr b" "ci < length d"
    "py_index (length (d ! ci)) p = Inr k"
    "basic_loop budget rest (d[ci := (d ! ci)[k := budget ! b]]) = Inr d'"
  using assms by (auto split: list.splits sum.splits if_splits)

lemma basic_loop_shape:
  "basic_loop budget xs d = Inr d' \<Longrightarrow> shape n s d \<Longrightarrow> shape n s d'"
proof (induction xs arbitrary: d)
  case Nil
  then show ?case by simp
next
  case (Cons x xs)
  obtain ci cp where x: "x = (ci, cp)" by (cases x)
  from Cons.prems(1) [unfolded x] obtain p ps b k where
    step: "ci < length d"
      "basic_loop budget xs (d[ci := (d ! ci)[k := budget ! b]]) = Inr d'"
    by (rule basic_loop_step)
  have "shape n s (d[ci := (d ! ci)[k := budget ! b]])"
    using Cons.prems(2) step(1)
    by (intro shape_update) (simp_all add: shape_nth shape_length)
  then show ?case by (rule Cons.IH [OF step(2)])
qed


lemma basic_loop_support:
  assumes "basic_loop budget xs d = Inr d'"
    and "\<forall>(ci, cp)\<in>set xs. cp = prefs ! ci \<and> (\<forall>p\<in>set cp. 0 \<le> p)"
    and "int k \<notin> set (prefs ! i)" "d ! i ! k = 0"
  shows "d' ! i ! k = 0"
  using assms
proof (induction xs arbitrary: d)
  case Nil
  then show ?case by simp
next
  case (Cons x xs)
  obtain ci cp where x: "x = (ci, cp)" by (cases x)
  from Cons.prems(1) [unfolded x] obtain p ps b k' where
    step: "cp = p # ps" "ci < length d" "py_index (length (d ! ci)) p = Inr k'"
      "basic_loop budget xs (d[ci := (d ! ci)[k' := budget ! b]]) = Inr d'"
    by (rule basic_loop_step)
  from Cons.prems(2) x have cp: "cp = prefs ! ci" "\<forall>q\<in>set cp. 0 \<le> q"
    by auto
  from cp(1) step(1) have "prefs ! ci = p # ps" by simp
  then have "p \<in> set (prefs ! ci)" by simp
  moreover from cp(2) step(1) have "0 \<le> p" by simp
  ultimately have p: "p \<in> set (prefs ! ci)" "0 \<le> p" .
  have "int k' = p"
    using py_index_Inr(2) [OF step(3) p(2)] .
  with p(1) Cons.prems(3) have "\<not> (i = ci \<and> k = k')" by auto
  then have "d[ci := (d ! ci)[k' := budget ! b]] ! i ! k = d ! i ! k"
    using step(2) by (cases "i = ci") auto
  with Cons.prems show ?case
    by (intro Cons.IH [OF step(4)]) simp_all
qed

lemma enumerate_preferences:
  "(ci, cp) \<in> set (zip [0..<length prefs] prefs) \<Longrightarrow> cp = prefs ! ci \<and> cp \<in> set prefs"
  by (auto simp: in_set_zip)

lemma allocate_subjects_unendorsed:
  assumes "shape (length prefs) (length budget) d" "\<forall>k\<in>set js. k < length budget"
    and "j \<in> set js" "interested prefs j = []" "0 < budget ! j"
  shows "allocate_subjects budget prefs share js d = Inr None"
  using assms(1,2,3)
proof (induction js arbitrary: d)
  case Nil
  then show ?case by simp
next
  case (Cons k js)
  show ?case
  proof (cases "k = j")
    case True
    have "allocate_budget_for_subject budget prefs j share d = Inr (False, d)"
      using Cons.prems(2) True assms(4,5)
      by (simp add: allocate_budget_for_subject_def find_interested_citizens_all)
    with True show ?thesis by simp
  next
    case False
    from Cons.prems obtain ok d1 where
      d1: "allocate_budget_for_subject budget prefs k share d = Inr (ok, d1)"
        "shape (length prefs) (length budget) d1"
      using allocate_budget_for_subject_shape [of prefs budget d k share] by auto
    show ?thesis
    proof (cases ok)
      case True
      have "allocate_subjects budget prefs share js d1 = Inr None"
        using Cons.prems False by (intro Cons.IH [OF d1(2)]) simp_all
      with d1(1) True show ?thesis by simp
    next
      case False
      with d1(1) show ?thesis by simp
    qed
  qed
qed

lemma find_decomposition_general:
  assumes "find_decomposition budget prefs = Inr (Some d)"
    and "is_basic_case_func budget prefs = Inr False"
  shows "allocate_subjects budget prefs
           (snd (calculate_total_budget_and_share budget (length prefs)))
           [0..<length budget] (replicate (length prefs) (replicate (length budget) 0)) =
         Inr (Some d)"
    and "verify_allocation d (snd (calculate_total_budget_and_share budget (length prefs)))"
  using assms
  by (auto simp: find_decomposition_def Let_def split_beta
      split: if_splits sum.splits option.splits)

lemma find_decomposition_basic:
  assumes "find_decomposition budget prefs = Inr (Some d)"
    and "is_basic_case_func budget prefs \<noteq> Inr False"
  shows "basic_loop budget (zip [0..<length prefs] prefs)
           (replicate (length prefs) (replicate (length budget) 0)) = Inr d"
  using assms
  by (auto simp: find_decomposition_def calc_decomposition_for_basic_case_def Let_def
      split: if_splits sum.splits)

lemma find_decomposition_shape:
  assumes "find_decomposition budget prefs = Inr (Some d)"
  shows "shape (length prefs) (length budget) d"
proof (cases "is_basic_case_func budget prefs = Inr False")
  case True
  show ?thesis
    using allocate_subjects_shape [OF zeros_facts(1), where js = "[0..<length budget]"
        and budget = budget and prefs = prefs
        and share = "snd (calculate_total_budget_and_share budget (length prefs))"]
      find_decomposition_general(1) [OF assms True]
    by auto
next
  case False
  show ?thesis
    using basic_loop_shape [OF find_decomposition_basic [OF assms False] zeros_facts(1)] .
qed

subsection \<open>The code against the description of the general path\<close>

lemma interested_spec: "interested prefs j = spec_interested prefs j"
proof -
  have "sorted_list_of_set (set (interested prefs j)) = interested prefs j"
    unfolding interested_def
    by (intro sorted_list_of_set.idem_if_sorted_distinct sorted_wrt_filter) simp_all
  moreover have "set (interested prefs j) =
      {i \<in> {0..<length prefs}. int j \<in> set (prefs ! i)}"
    by (auto simp: interested_def)
  ultimately show ?thesis by (simp add: spec_interested_def)
qed

lemma allocate_loop_spec:
  "shape n s d \<Longrightarrow> j < s \<Longrightarrow> \<forall>i\<in>set cs. i < n \<Longrightarrow> 0 \<le> sb \<Longrightarrow>
   allocate_loop share j cs sb d = Inr (spec_fill share j cs sb d)"
proof (induction cs arbitrary: sb d)
  case Nil
  then show ?case by simp
next
  case (Cons i cs)
  let ?a = "min (share - sum_list (d ! i)) sb"
  let ?d = "d[i := (d ! i)[j := d ! i ! j + ?a]]"
  have i: "i < length d" "j < length (d ! i)"
    using Cons.prems by (simp_all add: shape_length shape_nth)
  have "shape n s ?d"
    using Cons.prems by (intro shape_update) (simp_all add: shape_nth)
  then have "allocate_loop share j cs (sb - ?a) ?d = Inr (spec_fill share j cs (sb - ?a) ?d)"
    using Cons.prems by (intro Cons.IH) simp_all
  then show ?case
    using i Cons.prems(4) by (simp add: Let_def spec_capacity_def)
qed

lemma allocate_budget_for_subject_spec:
  assumes "shape (length prefs) (length budget) d" "j < length budget" "0 \<le> budget ! j"
  shows "allocate_budget_for_subject budget prefs j share d =
     Inr (case spec_subject budget prefs share j d of
            None \<Rightarrow> (False, d)
          | Some d' \<Rightarrow> (True, d'))"
proof -
  have cs: "\<forall>i\<in>set (interested prefs j). i < length prefs"
    by (simp add: interested_facts)
  have capacity: "spec_capacity share d = (\<lambda>i. share - sum_list (d ! i))"
    by (simp add: fun_eq_iff spec_capacity_def)
  have total: "total_possible_share share d (interested prefs j) =
      Inr (sum_list (map (spec_capacity share d) (spec_interested prefs j)))"
    using assms(1) cs
    by (simp add: total_possible_share_def list_all_iff shape_length interested_spec capacity)
  have loop: "allocate_loop share j (interested prefs j) (budget ! j) d =
      Inr (spec_fill share j (spec_interested prefs j) (budget ! j) d)"
    using allocate_loop_spec [OF assms(1,2) cs assms(3)] by (simp add: interested_spec)
  have none: "sum_list (map (spec_capacity share d) (spec_interested prefs j)) < budget ! j"
    if "interested prefs j = []" "0 < budget ! j"
    using that by (simp add: interested_spec [symmetric])
  show ?thesis
    using assms(2) none
    by (auto simp: allocate_budget_for_subject_def find_interested_citizens_all total loop
        spec_subject_def Let_def)
qed

lemma allocate_subjects_spec:
  assumes "shape (length prefs) (length budget) d"
    and "\<forall>j\<in>set js. j < length budget \<and> 0 \<le> budget ! j"
  shows "allocate_subjects budget prefs share js d = Inr (spec_run budget prefs share js d)"
  using assms
proof (induction js arbitrary: d)
  case Nil
  then show ?case by simp
next
  case (Cons j js)
  from Cons.prems have j: "j < length budget" "0 \<le> budget ! j" by simp_all
  note step = allocate_budget_for_subject_spec [OF Cons.prems(1) j, of share]
  show ?case
  proof (cases "spec_subject budget prefs share j d")
    case None
    with step show ?thesis by simp
  next
    case (Some d1)
    with step have d1: "allocate_budget_for_subject budget prefs j share d = Inr (True, d1)"
      by simp
    have "shape (length prefs) (length budget) d1"
      using allocate_budget_for_subject_shape [OF Cons.prems(1) j(1), of share] d1 by simp
    then have "allocate_subjects budget prefs share js d1 =
        Inr (spec_run budget prefs share js d1)"
      using Cons.prems(2) by (intro Cons.IH) simp_all
    with d1 Some show ?thesis by simp
  qed
qed

subsection \<open>The basic path when every citizen prefers a single subject\<close>

text \<open>The case the constructor is written for: every preference set is a singleton. Then
  each citizen's row holds the budget of the preferred subject in its cell and zero
  elsewhere.\<close>

lemma basic_loop_singletons:
  assumes "shape n (length budget) d" "distinct (map fst xs)"
    and "\<forall>(ci, cp)\<in>set xs. ci < n \<and> (\<exists>p. cp = [p] \<and> 0 \<le> p \<and> p < int (length budget))"
  shows "\<exists>d'. basic_loop budget xs d = Inr d' \<and> shape n (length budget) d' \<and>
     (\<forall>i<n. \<forall>k<length budget.
        d' ! i ! k = (if (i, [int k]) \<in> set xs then budget ! k else d ! i ! k))"
  using assms
proof (induction xs arbitrary: d)
  case Nil
  then show ?case by simp
next
  case (Cons x xs)
  from Cons.prems(3) obtain ci p where
    x: "x = (ci, [p])" and ci: "ci < n" and p: "0 \<le> p" "p < int (length budget)"
    by (cases x) auto
  let ?d = "d[ci := (d ! ci)[nat p := budget ! nat p]]"
  have row: "length (d ! ci) = length budget" and len: "length d = n"
    using Cons.prems(1) ci by (simp_all add: shape_nth shape_length)
  have sh: "shape n (length budget) ?d"
    using Cons.prems(1) ci by (intro shape_update) (simp_all add: shape_nth)
  from Cons.IH [OF sh] Cons.prems(2,3) obtain d' where
    d': "basic_loop budget xs ?d = Inr d'" "shape n (length budget) d'"
      "\<forall>i<n. \<forall>k<length budget.
         d' ! i ! k = (if (i, [int k]) \<in> set xs then budget ! k else ?d ! i ! k)"
    by auto
  have run: "basic_loop budget (x # xs) d = Inr d'"
    using d'(1) ci p row len by (simp add: x py_index_valid)
  have fresh: "(ci, cp) \<notin> set xs" for cp
    using Cons.prems(2) by (auto simp: x image_iff)
  have "d' ! i ! k = (if (i, [int k]) \<in> set (x # xs) then budget ! k else d ! i ! k)"
    if ik: "i < n" "k < length budget" for i k
  proof (cases "i = ci")
    case True
    have "d' ! ci ! k = ?d ! ci ! k"
      using d'(3) ik True fresh by simp
    also have "\<dots> = (if k = nat p then budget ! k else d ! ci ! k)"
      using ci len row p by (auto simp: nth_list_update)
    also have "k = nat p \<longleftrightarrow> int k = p"
      using p by auto
    finally show ?thesis
      using True fresh by (auto simp: x)
  next
    case False
    then have "?d ! i ! k = d ! i ! k" by simp
    with d'(3) ik False show ?thesis by (simp add: x)
  qed
  with run d'(2) show ?case by blast
qed

lemma basic_path_singletons:
  assumes "valid_preferences budget prefs"
    and "list_all (\<lambda>cp. length cp = 1) prefs"
    and "is_basic_case_func budget prefs = Inr True"
  shows "\<exists>d. find_decomposition budget prefs = Inr (Some d) \<and>
     shape (length prefs) (length budget) d \<and>
     (\<forall>i<length prefs. \<forall>k<length budget.
        d ! i ! k = (if int k \<in> set (prefs ! i) then budget ! k else 0))"
proof -
  let ?xs = "zip [0..<length prefs] prefs"
  let ?zeros = "replicate (length prefs) (replicate (length budget) (0::real))"
  have single: "\<exists>p. prefs ! i = [p] \<and> 0 \<le> p \<and> p < int (length budget)"
    if "i < length prefs" for i
  proof -
    from that assms(2) have "length (prefs ! i) = 1"
      by (simp add: list_all_length)
    then obtain p where "prefs ! i = [p]"
      by (cases "prefs ! i") auto
    moreover from that assms(1) have "\<forall>q\<in>set (prefs ! i). 0 \<le> q \<and> q < int (length budget)"
      by (auto simp: valid_preferences_def list_all_iff)
    ultimately show ?thesis by simp
  qed
  have pairs: "\<forall>(ci, cp)\<in>set ?xs.
      ci < length prefs \<and> (\<exists>p. cp = [p] \<and> 0 \<le> p \<and> p < int (length budget))"
    using single by (auto simp: in_set_zip)
  have "distinct (map fst ?xs)" by simp
  from basic_loop_singletons [OF zeros_facts(1) this pairs] obtain d where
    d: "basic_loop budget ?xs ?zeros = Inr d" "shape (length prefs) (length budget) d"
      "\<forall>i<length prefs. \<forall>k<length budget.
         d ! i ! k = (if (i, [int k]) \<in> set ?xs then budget ! k else ?zeros ! i ! k)"
    by blast
  have "(i, [int k]) \<in> set ?xs \<longleftrightarrow> int k \<in> set (prefs ! i)" if "i < length prefs" for i k
  proof -
    have "(i, [int k]) \<in> set ?xs \<longleftrightarrow> prefs ! i = [int k]"
    proof
      assume "(i, [int k]) \<in> set ?xs"
      then show "prefs ! i = [int k]"
        using enumerate_preferences [of i "[int k]" prefs] by simp
    next
      assume "prefs ! i = [int k]"
      with that have "[0..<length prefs] ! i = i \<and> prefs ! i = [int k] \<and> i < length prefs"
        by simp
      then show "(i, [int k]) \<in> set ?xs"
        unfolding in_set_zip by (intro exI [of _ i]) simp
    qed
    with single [OF that] show ?thesis by auto
  qed
  with d(3) have cells: "\<forall>i<length prefs. \<forall>k<length budget.
      d ! i ! k = (if int k \<in> set (prefs ! i) then budget ! k else 0)"
    by simp
  have "\<not> check_if_no_pref_then_return_None prefs"
    using assms(2) by (auto simp: check_if_no_pref_then_return_None_def list_ex_iff list_all_iff)
  then have "find_decomposition budget prefs = Inr (Some d)"
    using assms(3) d(1)
    by (simp add: find_decomposition_def calc_decomposition_for_basic_case_def)
  with d(2) cells show ?thesis by blast
qed

section \<open>The claims\<close>

text \<open>
  Claim C1, as stated: whenever \<open>find_decomposition\<close> returns a matrix, every citizen's
  row adds up to the total budget divided by the number of citizens, within \<open>1e-9\<close>.
  This fails on the basic path, which returns its matrix without calling the verifier:
  for the budget \<open>[0, 100]\<close> and the preferences \<open>[{0}, {1}]\<close> the first row adds up
  to 0 and the share is 50.
\<close>

theorem share_invariant_fails_on_basic_path:
  "find_decomposition [0, 100] [[0], [1]] = Inr (Some [[0, 0], [0, 100]]) \<and>
   \<not> \<bar>sum_list ([[0, 0], [0, 100::real]] ! 0) -
        sum_list [0, 100] / real (length [[0::int], [1]])\<bar> < 1 / 10 ^ 9"
  by code_simp

text \<open>
  Claim C1, amended: whenever \<open>find_decomposition\<close> returns a matrix on the general path
  (\<open>is_basic_case_func\<close> returned false), the matrix has one row per citizen and every
  citizen's row adds up to the total budget divided by the number of citizens, within
  \<open>1e-9\<close>.
\<close>

theorem share_invariant_general_path:
  assumes "find_decomposition budget prefs = Inr (Some d)"
    and "is_basic_case_func budget prefs = Inr False"
  shows "length d = length prefs \<and>
    (\<forall>i<length prefs.
       \<bar>sum_list (d ! i) - sum_list budget / real (length prefs)\<bar> < 1 / 10 ^ 9)"
proof -
  have len: "length d = length prefs"
    using find_decomposition_shape [OF assms(1)] by (simp add: shape_def)
  have "\<bar>sum_list (d ! i) - sum_list budget / real (length prefs)\<bar> < 1 / 10 ^ 9"
    if "i < length prefs" for i
  proof -
    from that have "snd (calculate_total_budget_and_share budget (length prefs)) =
        sum_list budget / real (length prefs)"
      by (auto simp: calculate_total_budget_and_share_def Let_def)
    then show ?thesis
      using find_decomposition_general(2) [OF assms] that len
      by (simp add: verify_allocation_def list_all_length)
  qed
  with len show ?thesis by simp
qed

theorem share_invariant_general_path_witness:
  "find_decomposition [5] [[0], [0]] = Inr (Some [[5 / 2], [5 / 2]]) \<and>
   is_basic_case_func [5] [[0], [0]] = Inr False \<and>
   length [[5 / 2], [5 / 2::real]] = length [[0::int], [0]] \<and>
   \<bar>sum_list ([[5 / 2], [5 / 2]] ! 1) - sum_list [5] / real (length [[0::int], [0]])\<bar>
     < 1 / 10 ^ 9"
proof -
  have h1: "find_decomposition [5] [[0], [0]] = Inr (Some [[5 / 2], [5 / 2]])" by code_simp
  have h2: "is_basic_case_func [5] [[0], [0]] = Inr False" by code_simp
  have "1 < length [[0::int], [0]]" by simp
  with share_invariant_general_path [OF h1 h2] h1 h2 show ?thesis by blast
qed

text \<open>
  Claim C2: when no preference set is empty, every subject occurs exactly once over all
  preference sets and the total budget is at least the number of citizens,
  \<open>find_decomposition\<close> places each subject's full budget on the citizen that prefers it
  and zero elsewhere. The code breaks this for a citizen who prefers more than one subject:
  the detector accepts the input, and the constructor fills only the cell of the first
  element that the set iterates. For the budget \<open>[1, 1]\<close> and the single citizen
  \<open>{0, 1}\<close> the counts are \<open>[1, 1]\<close> and the input is accepted as basic, but the result
  is \<open>[[1, 0]]\<close> (or \<open>[[0, 1]]\<close> when the set iterates 1 first): the budget of the other
  subject is placed nowhere. Where every preference set is a singleton the claim holds
  (\<open>basic_path_singletons\<close>).
\<close>

theorem basic_case_drops_further_preferences:
  "\<not> check_if_no_pref_then_return_None [[0, 1]] \<and>
   count_interest [[0, 1]] (replicate (length [1, 1::real]) 0) = Inr [1, 1] \<and>
   real (length [[0::int, 1]]) \<le> sum_list [1, 1] \<and>
   is_basic_case_func [1, 1] [[0, 1]] = Inr True \<and>
   find_decomposition [1, 1] [[0, 1]] = Inr (Some [[1, 0]]) \<and>
   find_decomposition [1, 1] [[1, 0]] = Inr (Some [[0, 1]])"
  by code_simp

text \<open>
  Claim C3: whenever \<open>find_decomposition\<close> returns a matrix, every column adds up to the
  budget of its subject, within \<open>1e-9\<close>. On the general path this holds for non-negative
  budgets (\<open>general_path_columns\<close>), but the basic path breaks it for a citizen who prefers
  more than one subject: for the budget \<open>[1, 1]\<close> and the single citizen \<open>{0, 1}\<close> the
  result is \<open>[[1, 0]]\<close>, whose column 1 adds up to 0 while the budget of subject 1 is 1.
\<close>

theorem basic_case_breaks_column_conservation:
  "find_decomposition [1, 1] [[0, 1]] = Inr (Some [[1, 0]]) \<and>
   col_sum [[1, 0]] 1 = 0 \<and>
   \<not> \<bar>col_sum [[1, 0]] 1 - [1, 1] ! 1\<bar> < 1 / 10 ^ 9"
  by code_simp

text \<open>
  Claim C4. On the general path the subjects are processed in increasing index order, and
  for each subject \<open>j\<close>: if the remaining capacities (share minus current row sum) of the
  interested citizens add up to strictly less than \<open>budget[j]\<close> the whole run fails;
  otherwise the interested citizens are visited in ascending index order, each receives
  the minimum of its remaining capacity and the remaining budget of the subject in cell
  \<open>[i][j]\<close>, the remaining budget is decremented, and the visit stops once it reaches
  zero. \<open>spec_run\<close> is this description; for a non-negative budget vector the loop of
  the code computes it and raises nothing, and \<open>find_decomposition\<close> on the general path
  returns its result when the verifier accepts it.
\<close>

theorem general_path_is_greedy_fill:
  assumes "list_all (\<lambda>b. 0 \<le> b) budget"
  shows "allocate_subjects budget prefs share [0..<length budget]
           (replicate (length prefs) (replicate (length budget) 0)) =
         Inr (spec_run budget prefs share [0..<length budget]
           (replicate (length prefs) (replicate (length budget) 0)))
    \<and> (\<not> check_if_no_pref_then_return_None prefs \<and>
         is_basic_case_func budget prefs = Inr False \<longrightarrow>
       find_decomposition budget prefs =
         (case spec_run budget prefs
                 (snd (calculate_total_budget_and_share budget (length prefs)))
                 [0..<length budget]
                 (replicate (length prefs) (replicate (length budget) 0)) of
            None \<Rightarrow> Inr None
          | Some d \<Rightarrow>
              if verify_allocation d
                   (snd (calculate_total_budget_and_share budget (length prefs)))
              then Inr (Some d) else Inr None))"
proof -
  have run: "allocate_subjects budget prefs sh [0..<length budget]
           (replicate (length prefs) (replicate (length budget) 0)) =
         Inr (spec_run budget prefs sh [0..<length budget]
           (replicate (length prefs) (replicate (length budget) 0)))" for sh
    using assms by (intro allocate_subjects_spec zeros_facts(1)) (simp add: list_all_length)
  show ?thesis
    by (auto simp: run find_decomposition_def Let_def split_beta split: option.splits)
qed

theorem general_path_is_greedy_fill_witness:
  "list_all (\<lambda>b. 0 \<le> b) [3, 1::real] \<and>
   \<not> check_if_no_pref_then_return_None [[0], [0, 1]] \<and>
   is_basic_case_func [3, 1] [[0], [0, 1]] = Inr False \<and>
   find_decomposition [3, 1] [[0], [0, 1]] = Inr (Some [[2, 0], [1, 1]]) \<and>
   allocate_subjects [3, 1] [[0], [0, 1]]
     (snd (calculate_total_budget_and_share [3, 1] (length [[0], [0::int, 1]])))
     [0..<length [3, 1::real]]
     (replicate (length [[0], [0::int, 1]]) (replicate (length [3, 1::real]) 0)) =
   Inr (spec_run [3, 1] [[0], [0, 1]]
     (snd (calculate_total_budget_and_share [3, 1] (length [[0], [0::int, 1]])))
     [0..<length [3, 1::real]]
     (replicate (length [[0], [0::int, 1]]) (replicate (length [3, 1::real]) 0))) \<and>
   spec_run [3, 1] [[0], [0, 1]]
     (snd (calculate_total_budget_and_share [3, 1] (length [[0], [0::int, 1]])))
     [0..<length [3, 1::real]]
     (replicate (length [[0], [0::int, 1]]) (replicate (length [3, 1::real]) 0)) =
   Some [[2, 0], [1, 1]]"
proof -
  let ?share = "snd (calculate_total_budget_and_share [3, 1] (length [[0], [0::int, 1]]))"
  let ?zeros = "replicate (length [[0], [0::int, 1]]) (replicate (length [3, 1::real]) (0::real))"
  have h1: "list_all (\<lambda>b. 0 \<le> b) [3, 1::real]" by simp
  have h2: "\<not> check_if_no_pref_then_return_None [[0], [0, 1]]" by code_simp
  have h3: "is_basic_case_func [3, 1] [[0], [0, 1]] = Inr False" by code_simp
  have h4: "find_decomposition [3, 1] [[0], [0, 1]] = Inr (Some [[2, 0], [1, 1]])" by code_simp
  have h5: "allocate_subjects [3, 1] [[0], [0, 1]] ?share [0..<length [3, 1::real]] ?zeros =
      Inr (Some [[2, 0], [1, 1]])"
    by code_simp
  have h6: "spec_run [3, 1] [[0], [0, 1]] ?share [0..<length [3, 1::real]] ?zeros =
      Some [[2, 0], [1, 1]]"
    by code_simp
  from general_path_is_greedy_fill [OF h1, of "[[0], [0, 1]]" ?share] h5 h6
  have h7: "allocate_subjects [3, 1] [[0], [0, 1]] ?share [0..<length [3, 1::real]] ?zeros =
      Inr (spec_run [3, 1] [[0], [0, 1]] ?share [0..<length [3, 1::real]] ?zeros)"
    by blast
  show ?thesis
    by (intro conjI h1 h2 h3 h4 h6 h7)
qed

text \<open>
  Claim C5. Whenever \<open>find_decomposition\<close> returns a matrix (on an input within the
  precondition of the interface: every preference is a subject index in range), the matrix
  has one row per citizen and one column per subject, and a strictly positive entry
  \<open>[i][j]\<close> implies that subject \<open>j\<close> is in citizen \<open>i\<close>'s preference set.
\<close>

theorem positive_entries_are_preferred:
  assumes "valid_preferences budget prefs"
    and "find_decomposition budget prefs = Inr (Some d)"
  shows "shape (length prefs) (length budget) d \<and>
    (\<forall>i<length prefs. \<forall>j<length budget. 0 < d ! i ! j \<longrightarrow> int j \<in> set (prefs ! i))"
proof -
  have "d ! i ! j = 0"
    if ij: "i < length prefs" "j < length budget" and out: "int j \<notin> set (prefs ! i)" for i j
  proof (cases "is_basic_case_func budget prefs = Inr False")
    case True
    show ?thesis
      using allocate_subjects_support [OF find_decomposition_general(1) [OF assms(2) True] out]
        ij by (simp add: zeros_facts)
  next
    case False
    have "\<forall>(ci, cp)\<in>set (zip [0..<length prefs] prefs).
        cp = prefs ! ci \<and> (\<forall>p\<in>set cp. 0 \<le> p)"
      using assms(1) enumerate_preferences [of _ _ prefs]
      by (fastforce simp: valid_preferences_def list_all_iff)
    from basic_loop_support [OF find_decomposition_basic [OF assms(2) False] this out]
    show ?thesis using ij by (simp add: zeros_facts)
  qed
  then have "\<forall>i<length prefs. \<forall>j<length budget. 0 < d ! i ! j \<longrightarrow> int j \<in> set (prefs ! i)"
    by fastforce
  with find_decomposition_shape [OF assms(2)] show ?thesis by simp
qed

theorem positive_entries_are_preferred_witness:
  "valid_preferences [400, 50, 50, 0] [[0, 1], [0, 2], [0, 3], [1, 2], [0]] \<and>
   find_decomposition [400, 50, 50, 0] [[0, 1], [0, 2], [0, 3], [1, 2], [0]] =
     Inr (Some [[100, 0, 0, 0], [100, 0, 0, 0], [100, 0, 0, 0], [0, 50, 50, 0], [100, 0, 0, 0]]) \<and>
   0 < [[100, 0, 0, 0], [100, 0, 0, 0], [100, 0, 0, 0], [0, 50, 50, 0], [100::real, 0, 0, 0]]
         ! 3 ! 2 \<and>
   int 2 \<in> set ([[0, 1], [0, 2], [0, 3], [1, 2], [0]] ! 3)"
proof -
  let ?budget = "[400, 50, 50, 0::real]"
  let ?prefs = "[[0, 1], [0, 2], [0, 3], [1, 2], [0::int]]"
  let ?d = "[[100, 0, 0, 0], [100, 0, 0, 0], [100, 0, 0, 0], [0, 50, 50, 0], [100::real, 0, 0, 0]]"
  have h1: "valid_preferences ?budget ?prefs" by code_simp
  have h2: "find_decomposition ?budget ?prefs = Inr (Some ?d)" by code_simp
  have pos: "0 < ?d ! 3 ! 2" by simp
  have "3 < length ?prefs" "2 < length ?budget" by simp_all
  with positive_entries_are_preferred [OF h1 h2] pos
  have "int 2 \<in> set (?prefs ! 3)" by blast
  with h1 h2 pos show ?thesis by blast
qed

text \<open>
  Claim C6. For every input in which at least one citizen's preference set is empty,
  \<open>find_decomposition\<close> returns the 'no solution' sentinel, whatever the budget vector.
\<close>

theorem empty_preference_gives_no_solution:
  "[] \<in> set prefs \<Longrightarrow> find_decomposition budget prefs = Inr None"
  by (auto simp: find_decomposition_def check_if_no_pref_then_return_None_def list_ex_iff)

theorem empty_preference_gives_no_solution_witness:
  "[] \<in> set [[0::int], []] \<and> find_decomposition [10] [[0], []] = Inr None"
  using empty_preference_gives_no_solution [of "[[0], []]" "[10]"] by simp

text \<open>
  Claim C7. When some subject \<open>j\<close> has a positive budget and no citizen's preference set
  contains \<open>j\<close> (on an input within the precondition of the interface), \<open>find_decomposition\<close>
  returns the 'no solution' sentinel.
\<close>

theorem unendorsed_subject_gives_no_solution:
  assumes "valid_preferences budget prefs"
    and "j < length budget" "0 < budget ! j"
    and "list_all (\<lambda>cp. int j \<notin> set cp) prefs"
  shows "find_decomposition budget prefs = Inr None"
proof -
  have basic: "is_basic_case_func budget prefs = Inr False"
    using assms(1,2,4) by (rule is_basic_case_func_unendorsed)
  have "interested prefs j = []"
    using assms(4) by (auto simp: interested_def list_all_length filter_empty_conv)
  then have "allocate_subjects budget prefs
      (snd (calculate_total_budget_and_share budget (length prefs)))
      [0..<length budget] (replicate (length prefs) (replicate (length budget) 0)) = Inr None"
    using assms(2,3) by (intro allocate_subjects_unendorsed zeros_facts(1)) simp_all
  with basic show ?thesis
    by (simp add: find_decomposition_def Let_def split_beta)
qed

theorem unendorsed_subject_gives_no_solution_witness:
  "valid_preferences [10, 10] [[0], [0]] \<and> 1 < length [10, 10::real] \<and> 0 < [10, 10::real] ! 1 \<and>
   list_all (\<lambda>cp. int 1 \<notin> set cp) [[0], [0]] \<and>
   find_decomposition [10, 10] [[0], [0]] = Inr None"
proof -
  have h1: "valid_preferences [10, 10] [[0], [0]]" by code_simp
  have h2: "1 < length [10, 10::real]" by simp
  have h3: "0 < [10, 10::real] ! 1" by simp
  have h4: "list_all (\<lambda>cp. int 1 \<notin> set cp) [[0], [0]]" by simp
  show ?thesis
    using unendorsed_subject_gives_no_solution [OF h1 h2 h3 h4] h1 h2 h3 h4 by blast
qed

text \<open>
  Claim C8. With zero citizens the share is 0 (the guard of
  \<open>calculate_total_budget_and_share\<close> avoids the division), and \<open>find_decomposition\<close>
  returns the 'no solution' sentinel if some budget entry is positive, and the empty
  matrix if all budget entries are zero.
\<close>

theorem no_citizens_result:
  "snd (calculate_total_budget_and_share budget 0) = 0 \<and>
   (list_ex (\<lambda>b. 0 < b) budget \<longrightarrow> find_decomposition budget [] = Inr None) \<and>
   (list_all (\<lambda>b. b = 0) budget \<longrightarrow> find_decomposition budget [] = Inr (Some []))"
proof -
  have "list_all (\<lambda>b. b = 0) budget \<Longrightarrow> \<not> list_ex (\<lambda>b. 0 < b) budget"
    by (auto simp: list_all_iff list_ex_iff)
  then show ?thesis
    by (auto simp: find_decomposition_no_citizens calculate_total_budget_and_share_def)
qed

theorem no_citizens_result_witness:
  "list_ex (\<lambda>b. 0 < b) [0, 1::real] \<and> find_decomposition [0, 1] [] = Inr None \<and>
   list_all (\<lambda>b. b = 0) [0, 0::real] \<and> find_decomposition [0, 0] [] = Inr (Some [])"
  using no_citizens_result [of "[0, 1]"] no_citizens_result [of "[0, 0]"] by simp



text \<open>
  Claim C10. In exact arithmetic, with a non-negative budget vector, the failure branch of
  the verifier is unreachable on the general path: whenever \<open>allocate_budget_for_subject\<close>
  succeeds for every subject, every citizen's row adds up to exactly the share, so
  \<open>verify_allocation\<close> holds and \<open>find_decomposition\<close> returns the matrix. (The theorem
  does not need a citizen to exist: with no citizen the matrix has no row.)
\<close>

theorem verifier_cannot_fail:
  assumes "list_all (\<lambda>b. 0 \<le> b) budget"
    and "\<not> check_if_no_pref_then_return_None prefs"
    and "is_basic_case_func budget prefs = Inr False"
    and "allocate_subjects budget prefs
           (snd (calculate_total_budget_and_share budget (length prefs)))
           [0..<length budget] (replicate (length prefs) (replicate (length budget) 0)) =
         Inr (Some d)"
  shows "list_all (\<lambda>row. sum_list row =
             snd (calculate_total_budget_and_share budget (length prefs))) d
    \<and> verify_allocation d (snd (calculate_total_budget_and_share budget (length prefs)))
    \<and> find_decomposition budget prefs = Inr (Some d)"
proof -
  let ?share = "snd (calculate_total_budget_and_share budget (length prefs))"
  have budget: "\<forall>b\<in>set budget. 0 \<le> b"
    using assms(1) by (simp add: list_all_iff)
  have rows: "list_all (\<lambda>row. sum_list row = ?share) d"
    using general_path_rows [OF budget assms(4)] by (simp add: list_all_iff)
  then have verify: "verify_allocation d ?share"
    by (simp add: verify_allocation_def list_all_iff)
  have "find_decomposition budget prefs = Inr (Some d)"
    using assms(2,3,4) verify
    by (simp add: find_decomposition_def Let_def split_beta)
  with rows verify show ?thesis by simp
qed

theorem verifier_cannot_fail_witness:
  "list_all (\<lambda>b. 0 \<le> b) [5::real] \<and> \<not> check_if_no_pref_then_return_None [[0], [0]] \<and>
   is_basic_case_func [5] [[0], [0]] = Inr False \<and>
   list_all (\<lambda>row. sum_list row =
       snd (calculate_total_budget_and_share [5] (length [[0::int], [0]])))
     [[5 / 2], [5 / 2]] \<and>
   verify_allocation [[5 / 2], [5 / 2]]
     (snd (calculate_total_budget_and_share [5] (length [[0::int], [0]]))) \<and>
   find_decomposition [5] [[0], [0]] = Inr (Some [[5 / 2], [5 / 2]])"
proof -
  have h1: "list_all (\<lambda>b. 0 \<le> b) [5::real]" by simp
  have h2: "\<not> check_if_no_pref_then_return_None [[0], [0]]" by code_simp
  have h3: "is_basic_case_func [5] [[0], [0]] = Inr False" by code_simp
  have h4: "allocate_subjects [5] [[0], [0]]
      (snd (calculate_total_budget_and_share [5] (length [[0::int], [0]])))
      [0..<length [5::real]]
      (replicate (length [[0::int], [0]]) (replicate (length [5::real]) 0)) =
      Inr (Some [[5 / 2], [5 / 2]])"
    by code_simp
  show ?thesis
    using verifier_cannot_fail [OF h1 h2 h3 h4] h1 h2 h3 by blast
qed

end
